theory Spec2Isabelle
  imports Main
begin

section \<open>Python string primitives used by the program\<close>

text \<open>
  A Python \<open>str\<close> is modelled as a \<open>string\<close>, each \<open>char\<close> standing for the code
  point of the same number (0 to 255). The classifications below are those of
  \<open>str.isspace\<close>, \<open>str.splitlines\<close> and \<open>str.lower\<close> on that range.
\<close>

definition LF :: char where
  "LF = CHR 0x0A"

definition CR :: char where
  "CR = CHR 0x0D"

definition is_space :: "char \<Rightarrow> bool" where
  \<comment> \<open>the characters \<open>str.strip()\<close> removes: TAB, LF, VT, FF, CR, FS, GS, RS, US, SPACE, NEL, NBSP\<close>
  "is_space c \<longleftrightarrow>
     c \<in> {CHR 0x09, CHR 0x0A, CHR 0x0B, CHR 0x0C, CHR 0x0D, CHR 0x1C, CHR 0x1D, CHR 0x1E,
          CHR 0x1F, CHR 0x20, CHR 0x85, CHR 0xA0}"

definition is_linebreak :: "char \<Rightarrow> bool" where
  \<comment> \<open>the line boundaries of \<open>str.splitlines()\<close>: LF, VT, FF, CR, FS, GS, RS, NEL\<close>
  "is_linebreak c \<longleftrightarrow>
     c \<in> {CHR 0x0A, CHR 0x0B, CHR 0x0C, CHR 0x0D, CHR 0x1C, CHR 0x1D, CHR 0x1E, CHR 0x85}"

definition strip :: "string \<Rightarrow> string" where
  \<comment> \<open>\<open>line.strip()\<close>\<close>
  "strip s = rev (dropWhile is_space (rev (dropWhile is_space s)))"

fun splitlines_from :: "string \<Rightarrow> string \<Rightarrow> string list" where
  \<comment> \<open>\<open>cur\<close> is the line read so far; a line is emitted at every boundary (CR LF counting
      as one), and at the end of the text only when characters are pending\<close>
  "splitlines_from cur [] = (if cur = [] then [] else [cur])"
| "splitlines_from cur (c # cs) =
     (if is_linebreak c then
        (case cs of
           [] \<Rightarrow> [cur]
         | d # ds \<Rightarrow>
             if c = CR \<and> d = LF then cur # splitlines_from [] ds
             else cur # splitlines_from [] (d # ds))
      else splitlines_from (cur @ [c]) cs)"

definition splitlines :: "string \<Rightarrow> string list" where
  \<comment> \<open>\<open>text.splitlines()\<close>\<close>
  "splitlines s = splitlines_from [] s"

fun join :: "string \<Rightarrow> string list \<Rightarrow> string" where
  \<comment> \<open>\<open>sep.join(xs)\<close>\<close>
  "join sep [] = []"
| "join sep [x] = x"
| "join sep (x # y # ys) = x @ sep @ join sep (y # ys)"

definition lower_char :: "char \<Rightarrow> char" where
  "lower_char c =
     (let n = (of_char c :: nat) in
      if (65 \<le> n \<and> n \<le> 90) \<or> (192 \<le> n \<and> n \<le> 222 \<and> n \<noteq> 215)
      then char_of (n + 32) else c)"

definition lower :: "string \<Rightarrow> string" where
  \<comment> \<open>\<open>ext.lower()\<close>\<close>
  "lower s = map lower_char s"

definition rfind :: "string \<Rightarrow> char \<Rightarrow> int" where
  \<comment> \<open>\<open>p.rfind(c)\<close>: the index of the last occurrence of \<open>c\<close>, or \<open>-1\<close>\<close>
  "rfind p c =
     (if c \<in> set p then int (length p) - 1 - int (length (takeWhile (\<lambda>x. x \<noteq> c) (rev p)))
      else - 1)"

function skip_leading_dots :: "string \<Rightarrow> int \<Rightarrow> int \<Rightarrow> (string \<times> string) option" where
  \<comment> \<open>the loop of \<open>os.path.splitext\<close> that skips the leading dots of the file name\<close>
  "skip_leading_dots p filenameIndex dotIndex =
     (if filenameIndex < dotIndex then
        (if take 1 (drop (nat filenameIndex) p) \<noteq> ''.''
         then Some (take (nat dotIndex) p, drop (nat dotIndex) p)
         else skip_leading_dots p (filenameIndex + 1) dotIndex)
      else None)"
  by pat_completeness auto
termination
  by (relation "measure (\<lambda>(p, i, d). nat (d - i))") auto

declare skip_leading_dots.simps [simp del]

definition splitext :: "string \<Rightarrow> string \<times> string" where
  \<comment> \<open>\<open>os.path.splitext(p)\<close> with the POSIX separator \<open>/\<close> and extension separator \<open>.\<close>\<close>
  "splitext p =
     (let sepIndex = rfind p (CHR ''/'');
          dotIndex = rfind p (CHR ''.'')
      in if dotIndex > sepIndex then
           (case skip_leading_dots p (sepIndex + 1) dotIndex of
              Some r \<Rightarrow> r
            | None \<Rightarrow> (p, []))
         else (p, []))"

section \<open>Type detection\<close>

definition detect_file_type :: "string \<Rightarrow> string" where
  "detect_file_type file_path =
     (let ext = snd (splitext file_path);
          ext = lower ext
      in if ext \<in> set [''.yaml'', ''.yml''] then ''yaml''
         else if ext = ''.json'' then ''json''
         else ''text'')"

section \<open>Whitespace normalization\<close>

definition normalize_whitespace :: "string \<Rightarrow> string" where
  \<comment> \<open>\<open>'\n'.join(line.strip() for line in text.splitlines())\<close>, the transform that
      \<open>generate_diff_html\<close> applies to both texts when \<open>ignore_whitespace\<close> is set\<close>
  "normalize_whitespace text = join [LF] (map strip (splitlines text))"

section \<open>The world the program runs in\<close>

text \<open>
  Exceptions are values. The file system, the external linters and the YAML, JSON and
  diff libraries are not part of the program: they are the fields of a record that every
  operation takes as its first argument. A library call returns \<open>Inl e\<close> where the Python
  call raises \<open>e\<close>.
\<close>

datatype exn =
    FileNotFoundError string
  | CalledProcessError string
  | YAMLError string
  | JSONDecodeError string
  | OtherException string

fun exn_str :: "exn \<Rightarrow> string" where
  \<comment> \<open>\<open>str(e)\<close>; for \<open>CalledProcessError\<close> the argument is \<open>e.stderr\<close>\<close>
  "exn_str (FileNotFoundError m) = m"
| "exn_str (CalledProcessError m) = m"
| "exn_str (YAMLError m) = m"
| "exn_str (JSONDecodeError m) = m"
| "exn_str (OtherException m) = m"

datatype level = INFO | WARNING | ERROR

type_synonym log_entry = "level \<times> string"

record ('y, 'j, 'd) world =
  path_exists :: "string \<Rightarrow> bool"
  open_read :: "string \<Rightarrow> exn + string"
  open_write :: "string \<Rightarrow> string \<Rightarrow> exn option"
  subprocess_run :: "string list \<Rightarrow> exn option"
  yaml_safe_load :: "string \<Rightarrow> exn + 'y"
  yaml_dump :: "'y \<Rightarrow> nat \<Rightarrow> exn + string"
  json_load :: "string \<Rightarrow> exn + 'j"
  json_dumps :: "'j \<Rightarrow> nat \<Rightarrow> exn + string"
  diff_main :: "string \<Rightarrow> string \<Rightarrow> exn + 'd"
  diff_cleanupSemantic :: "'d \<Rightarrow> exn + 'd"
  diff_prettyHtml :: "'d \<Rightarrow> exn + string"
  print_stdout :: "string \<Rightarrow> exn option"

text \<open>
  \<open>path_exists\<close> is \<open>os.path.exists\<close>; \<open>open_read p\<close> is the text of the file opened
  with \<open>open(p, 'r')\<close>; \<open>open_write p s\<close> is \<open>open(p, 'w')\<close> followed by \<open>f.write(s)\<close>,
  \<open>None\<close> when it succeeds; \<open>subprocess_run cmd\<close> is
  \<open>subprocess.run(cmd, check=True, ...)\<close>, \<open>None\<close> when the command exits with status
  0. The second argument of \<open>yaml_dump\<close> and \<open>json_dumps\<close> is \<open>indent\<close>.
  \<open>diff_cleanupSemantic\<close> updates its argument in place; here it returns the new script.
  \<open>print_stdout s\<close> is \<open>print(s)\<close>, \<open>None\<close> when it succeeds and the exception it
  raises otherwise (a closed standard output, an encoding error).
\<close>

section \<open>Validation\<close>

definition validate_file :: "('y, 'j, 'd) world \<Rightarrow> string \<Rightarrow> string \<Rightarrow> bool \<times> log_entry list" where
  "validate_file w file_path file_type =
     (if file_type = ''yaml'' then
        (case subprocess_run w [''yamllint'', file_path] of
           None \<Rightarrow> (True, [])
         | Some (FileNotFoundError m) \<Rightarrow>
             (True, [(WARNING, ''yamllint not found. Skipping YAML validation. Please install yamllint to enable validation.'')])
         | Some (CalledProcessError stderr) \<Rightarrow>
             (False, [(ERROR, ''YAML validation failed for '' @ file_path @ '':'' @ [LF] @ stderr)])
         | Some e \<Rightarrow>
             (False, [(ERROR, ''Error during validation for '' @ file_path @ '': '' @ exn_str e)]))
      else if file_type = ''json'' then
        (case subprocess_run w [''jsonlint'', file_path] of
           None \<Rightarrow> (True, [])
         | Some (FileNotFoundError m) \<Rightarrow>
             (True, [(WARNING, ''jsonlint not found. Skipping JSON validation. Please install jsonlint to enable validation.'')])
         | Some (CalledProcessError stderr) \<Rightarrow>
             (False, [(ERROR, ''JSON validation failed for '' @ file_path @ '':'' @ [LF] @ stderr)])
         | Some e \<Rightarrow>
             (False, [(ERROR, ''Error during validation for '' @ file_path @ '': '' @ exn_str e)]))
      else
        (True, [(WARNING, ''No validator available for file type: '' @ file_type @ ''. Skipping validation.'')]))"

section \<open>Reading and canonicalizing a file\<close>

definition read_failed :: "string \<Rightarrow> exn \<Rightarrow> string option \<times> log_entry list" where
  \<comment> \<open>the two outer handlers of \<open>read_file\<close>\<close>
  "read_failed file_path e =
     (case e of
        FileNotFoundError m \<Rightarrow> (None, [(ERROR, ''File not found: '' @ file_path)])
      | _ \<Rightarrow> (None, [(ERROR, ''Error reading file '' @ file_path @ '': '' @ exn_str e)]))"

definition read_file :: "('y, 'j, 'd) world \<Rightarrow> string \<Rightarrow> string \<Rightarrow> string option \<times> log_entry list" where
  "read_file w file_path file_type =
     (case open_read w file_path of
        Inl e \<Rightarrow> read_failed file_path e
      | Inr f \<Rightarrow>
          if file_type = ''yaml'' then
            (case (case yaml_safe_load w f of Inl e \<Rightarrow> Inl e | Inr data \<Rightarrow> yaml_dump w data 2) of
               Inr text \<Rightarrow> (Some text, [])
             | Inl (YAMLError m) \<Rightarrow>
                 (None, [(ERROR, ''Error parsing YAML file '' @ file_path @ '': '' @ m)])
             | Inl e \<Rightarrow> read_failed file_path e)
          else if file_type = ''json'' then
            (case (case json_load w f of Inl e \<Rightarrow> Inl e | Inr data \<Rightarrow> json_dumps w data 2) of
               Inr text \<Rightarrow> (Some text, [])
             | Inl (JSONDecodeError m) \<Rightarrow>
                 (None, [(ERROR, ''Error parsing JSON file '' @ file_path @ '': '' @ m)])
             | Inl e \<Rightarrow> read_failed file_path e)
          else (Some f, []))"

section \<open>Diff generation\<close>

definition generate_diff_html :: "('y, 'j, 'd) world \<Rightarrow> string \<Rightarrow> string \<Rightarrow> bool \<Rightarrow> exn + string" where
  "generate_diff_html w text1 text2 ignore_whitespace =
     (let text1 = (if ignore_whitespace then normalize_whitespace text1 else text1);
          text2 = (if ignore_whitespace then normalize_whitespace text2 else text2)
      in case diff_main w text1 text2 of
           Inl e \<Rightarrow> Inl e
         | Inr diff \<Rightarrow>
             (case diff_cleanupSemantic w diff of
                Inl e \<Rightarrow> Inl e
              | Inr diff \<Rightarrow> diff_prettyHtml w diff))"

section \<open>The command line program\<close>

record args =
  file1 :: string
  file2 :: string
  output_arg :: "string option"
  type_arg :: "string option"
  ignore_whitespace :: bool
  no_validation :: bool

text \<open>
  \<open>type_arg\<close> is \<open>args.type\<close> and \<open>output_arg\<close> is \<open>args.output\<close>. What a run of \<open>main\<close> leaves behind: the exit status (1
  after \<open>sys.exit(1)\<close>, 0 when \<open>main\<close> returns), the text given to \<open>print\<close>, the file
  written, and the log records in order.
\<close>

record outcome =
  exit_status :: nat
  printed :: "string option"
  written :: "(string \<times> string) option"
  log :: "log_entry list"

definition sys_exit :: "log_entry list \<Rightarrow> outcome" where
  \<comment> \<open>\<open>sys.exit(1)\<close> after the given log records\<close>
  "sys_exit l = \<lparr>exit_status = 1, printed = None, written = None, log = l\<rparr>"

definition html_document :: "string \<Rightarrow> string" where
  "html_document diff_html =
     join [LF]
       [''<!DOCTYPE html>'',
        ''<html>'',
        ''<head>'',
        ''<meta charset='' @ [CHR 0x22] @ ''utf-8'' @ [CHR 0x22] @ ''>'',
        ''<title>Configuration Diff</title>'',
        ''<style>'',
        ''del { background:#ffe6e6; }'',
        ''ins { background:#e6ffe6; }'',
        ''</style>'',
        ''</head>'',
        ''<body>'',
        diff_html,
        ''</body>'',
        ''</html>'']"

definition mismatch_warning :: log_entry where
  "mismatch_warning =
     (WARNING, ''File types of the two files appear to be different. Please specify the file type using the -t option for more accurate comparison.'')"

definition determine_file_type :: "args \<Rightarrow> string \<times> log_entry list" where
  \<comment> \<open>the block \<open># Determine file type\<close>; \<open>not file_type\<close> holds for \<open>None\<close> and for the
      empty string\<close>
  "determine_file_type a =
     (case type_arg a of
        Some t \<Rightarrow>
          if t \<noteq> [] then (t, [])
          else (detect_file_type (file1 a),
                if detect_file_type (file1 a) \<noteq> detect_file_type (file2 a)
                then [mismatch_warning] else [])
      | None \<Rightarrow>
          (detect_file_type (file1 a),
           if detect_file_type (file1 a) \<noteq> detect_file_type (file2 a)
           then [mismatch_warning] else []))"

definition validation_step :: "('y, 'j, 'd) world \<Rightarrow> args \<Rightarrow> string \<Rightarrow> bool \<times> log_entry list" where
  \<comment> \<open>the block \<open># Validation step\<close>; \<open>False\<close> where it calls \<open>sys.exit(1)\<close>\<close>
  "validation_step w a file_type =
     (if \<not> no_validation a then
        (if file_type \<in> set [''yaml'', ''json''] then
           (case validate_file w (file1 a) file_type of
              (False, l1) \<Rightarrow> (False, l1)
            | (True, l1) \<Rightarrow>
                (case validate_file w (file2 a) file_type of
                   (False, l2) \<Rightarrow> (False, l1 @ l2)
                 | (True, l2) \<Rightarrow> (True, l1 @ l2)))
         else (True, []))
      else (True, []))"

definition output_step :: "('y, 'j, 'd) world \<Rightarrow> args \<Rightarrow> string \<Rightarrow> string \<Rightarrow> log_entry list \<Rightarrow> outcome" where
  \<comment> \<open>the block \<open># Generate and output diff\<close>, entered with the log so far; \<open>print\<close> is
      inside the outer \<open>try\<close>, the \<open>sys.exit(1)\<close> of the inner handler passes through it\<close>
  "output_step w a config1 config2 l =
     (case generate_diff_html w config1 config2 (ignore_whitespace a) of
        Inl e \<Rightarrow> sys_exit (l @ [(ERROR, ''Error generating diff: '' @ exn_str e)])
      | Inr diff_html \<Rightarrow>
          (case (case output_arg a of None \<Rightarrow> None | Some p \<Rightarrow> if p = [] then None else Some p) of
             Some p \<Rightarrow>
               (case open_write w p (html_document diff_html) of
                  None \<Rightarrow>
                    \<lparr>exit_status = 0, printed = None,
                     written = Some (p, html_document diff_html),
                     log = l @ [(INFO, ''Diff saved to '' @ p)]\<rparr>
                | Some e \<Rightarrow>
                    sys_exit (l @ [(ERROR, ''Error writing to output file: '' @ exn_str e)]))
           | None \<Rightarrow>
               (case print_stdout w (html_document diff_html) of
                  None \<Rightarrow>
                    \<lparr>exit_status = 0, printed = Some (html_document diff_html),
                     written = None, log = l\<rparr>
                | Some e \<Rightarrow>
                    sys_exit (l @ [(ERROR, ''Error generating diff: '' @ exn_str e)]))))"

definition main :: "('y, 'j, 'd) world \<Rightarrow> args \<Rightarrow> outcome" where
  "main w a =
     (if \<not> path_exists w (file1 a) then sys_exit [(ERROR, ''File not found: '' @ file1 a)]
      else if \<not> path_exists w (file2 a) then sys_exit [(ERROR, ''File not found: '' @ file2 a)]
      else
        (case determine_file_type a of
           (file_type, l0) \<Rightarrow>
             (case validation_step w a file_type of
                (False, l1) \<Rightarrow> sys_exit (l0 @ l1)
              | (True, l1) \<Rightarrow>
                  (case read_file w (file1 a) file_type of
                     (config1, l2) \<Rightarrow>
                       (case read_file w (file2 a) file_type of
                          (config2, l3) \<Rightarrow>
                            (case (config1, config2) of
                               (Some c1, Some c2) \<Rightarrow> output_step w a c1 c2 (l0 @ l1 @ l2 @ l3)
                             | _ \<Rightarrow> sys_exit (l0 @ l1 @ l2 @ l3)))))))"

section \<open>Auxiliary notions\<close>

text \<open>
  A line without a line boundary in it, for the proofs about \<open>splitlines\<close>.
\<close>

definition no_linebreak :: "string \<Rightarrow> bool" where
  "no_linebreak l \<longleftrightarrow> (\<forall>c\<in>set l. \<not> is_linebreak c)"

text \<open>
  An example of a world, for running the program on concrete inputs. Neither \<open>yamllint\<close>
  nor \<open>jsonlint\<close> is installed; there are three files, \<open>a.json\<close> holding \<open>{}\<close>,
  \<open>bad.json\<close> holding \<open>{a: 1}\<close> and \<open>b.txt\<close> holding \<open>x\<close>. \<open>json.load\<close> accepts \<open>{}\<close>
  and raises \<open>JSONDecodeError\<close> on the other two texts, with the messages of CPython. The
  loaded data is kept as its text, and the diff of two texts is shown as the one after the
  other: nothing proved below depends on what the diff library computes.
\<close>

definition example_world :: "(string, string, string) world" where
  "example_world =
     \<lparr>path_exists = (\<lambda>p. p \<in> set [''a.json'', ''bad.json'', ''b.txt'']),
      open_read = (\<lambda>p. if p = ''a.json'' then Inr ''{}''
                        else if p = ''bad.json'' then Inr ''{a: 1}''
                        else if p = ''b.txt'' then Inr ''x''
                        else Inl (FileNotFoundError p)),
      open_write = (\<lambda>p s. None),
      subprocess_run = (\<lambda>cmd. Some (FileNotFoundError (hd cmd))),
      yaml_safe_load = Inr,
      yaml_dump = (\<lambda>data indent. Inr data),
      json_load = (\<lambda>s. if s = ''{}'' then Inr s
                        else if s = ''{a: 1}''
                        then Inl (JSONDecodeError ''Expecting property name enclosed in double quotes: line 1 column 2 (char 1)'')
                        else Inl (JSONDecodeError ''Expecting value: line 1 column 1 (char 0)'')),
      json_dumps = (\<lambda>data indent. Inr data),
      diff_main = (\<lambda>text1 text2. Inr (text1 @ text2)),
      diff_cleanupSemantic = Inr,
      diff_prettyHtml = Inr,
      print_stdout = (\<lambda>s. None)\<rparr>"

definition example_args :: "string \<Rightarrow> string \<Rightarrow> string option \<Rightarrow> bool \<Rightarrow> args" where
  "example_args f1 f2 t nv =
     \<lparr>file1 = f1, file2 = f2, output_arg = None, type_arg = t,
      ignore_whitespace = False, no_validation = nv\<rparr>"

section \<open>Properties of type detection\<close>

lemma skip_leading_dots_Some:
  "skip_leading_dots p i d = Some r \<Longrightarrow> r = (take (nat d) p, drop (nat d) p)"
proof (induction p i d rule: skip_leading_dots.induct)
  case (1 p i d)
  from "1.prems" have step:
    "(if i < d then
        (if take 1 (drop (nat i) p) \<noteq> ''.''
         then Some (take (nat d) p, drop (nat d) p)
         else skip_leading_dots p (i + 1) d)
      else None) = Some r"
    by (subst (asm) skip_leading_dots.simps)
  show ?case
  proof (cases "i < d")
    case True
    show ?thesis
    proof (cases "take 1 (drop (nat i) p) \<noteq> ''.''")
      case True
      with \<open>i < d\<close> step show ?thesis by simp
    next
      case False
      with \<open>i < d\<close> step have "skip_leading_dots p (i + 1) d = Some r" by simp
      with "1.IH" \<open>i < d\<close> False show ?thesis by simp
    qed
  next
    case False
    with step show ?thesis by simp
  qed
qed

lemma splitext_append: "fst (splitext p) @ snd (splitext p) = p"
  by (auto simp: splitext_def Let_def split: option.splits dest: skip_leading_dots_Some)

text \<open>
  A file name that is nothing but a leading dot and letters has no extension, so a file
  called \<open>.yaml\<close> is a text file, as \<open>os.path.splitext\<close> has it.
\<close>

lemma hidden_file_is_text:
  "splitext ''.yaml'' = (''.yaml'', []) \<and> detect_file_type ''.yaml'' = ''text''"
  by code_simp

subsection \<open>Case folding of the letters of the three extensions\<close>

lemma lower_char_letter:
  assumes "97 \<le> (of_char l :: nat)" and "(of_char l :: nat) \<le> 122"
  shows "lower_char c = l \<longleftrightarrow> c = l \<or> of_char c + 32 = (of_char l :: nat)"
proof -
  have lt: "(of_char c :: nat) < 256" by simp
  have eq: "\<And>n. char_of n = l \<longleftrightarrow> n mod 256 = (of_char l :: nat)"
    by (metis char_of_char char_of_quasi_inj of_char_mod_256)
  have neq: "c = l \<longleftrightarrow> (of_char c :: nat) = of_char l" by simp
  show ?thesis
    unfolding lower_char_def Let_def eq neq using assms lt by auto
qed

lemma lower_char_other:
  assumes "(of_char l :: nat) < 65"
  shows "lower_char c = l \<longleftrightarrow> c = l"
proof -
  have lt: "(of_char c :: nat) < 256" by simp
  have eq: "\<And>n. char_of n = l \<longleftrightarrow> n mod 256 = (of_char l :: nat)"
    by (metis char_of_char char_of_quasi_inj of_char_mod_256)
  have neq: "c = l \<longleftrightarrow> (of_char c :: nat) = of_char l" by simp
  show ?thesis
    unfolding lower_char_def Let_def eq neq using assms lt by auto
qed

lemma lower_char_pair:
  assumes "97 \<le> (of_char l :: nat)" and "(of_char l :: nat) \<le> 122"
    and "(of_char u :: nat) + 32 = of_char l"
  shows "lower_char c = l \<longleftrightarrow> c = l \<or> c = u"
proof -
  have "(of_char c :: nat) + 32 = of_char l \<longleftrightarrow> (of_char c :: nat) + 32 = of_char u + 32"
    by (simp only: assms(3))
  also have "\<dots> \<longleftrightarrow> c = u" by simp
  finally show ?thesis
    using lower_char_letter [OF assms(1,2), of c] by simp
qed

lemma lower_char_simps:
  "lower_char c = CHR ''.'' \<longleftrightarrow> c = CHR ''.''"
  "lower_char c = CHR ''y'' \<longleftrightarrow> c = CHR ''y'' \<or> c = CHR ''Y''"
  "lower_char c = CHR ''a'' \<longleftrightarrow> c = CHR ''a'' \<or> c = CHR ''A''"
  "lower_char c = CHR ''m'' \<longleftrightarrow> c = CHR ''m'' \<or> c = CHR ''M''"
  "lower_char c = CHR ''l'' \<longleftrightarrow> c = CHR ''l'' \<or> c = CHR ''L''"
  "lower_char c = CHR ''j'' \<longleftrightarrow> c = CHR ''j'' \<or> c = CHR ''J''"
  "lower_char c = CHR ''s'' \<longleftrightarrow> c = CHR ''s'' \<or> c = CHR ''S''"
  "lower_char c = CHR ''o'' \<longleftrightarrow> c = CHR ''o'' \<or> c = CHR ''O''"
  "lower_char c = CHR ''n'' \<longleftrightarrow> c = CHR ''n'' \<or> c = CHR ''N''"
          apply (simp add: lower_char_other)
         apply (rule lower_char_pair; simp)
        apply (rule lower_char_pair; simp)
       apply (rule lower_char_pair; simp)
      apply (rule lower_char_pair; simp)
     apply (rule lower_char_pair; simp)
    apply (rule lower_char_pair; simp)
   apply (rule lower_char_pair; simp)
  apply (rule lower_char_pair; simp)
  done

lemma lower_yaml:
  "lower e = ''.yaml'' \<longleftrightarrow>
   list_all2 (\<lambda>c cs. c \<in> set cs) e [''.'', ''yY'', ''aA'', ''mM'', ''lL'']"
  by (auto simp: lower_def list_all2_Cons2 lower_char_simps)

lemma lower_yml:
  "lower e = ''.yml'' \<longleftrightarrow>
   list_all2 (\<lambda>c cs. c \<in> set cs) e [''.'', ''yY'', ''mM'', ''lL'']"
  by (auto simp: lower_def list_all2_Cons2 lower_char_simps)

lemma lower_json:
  "lower e = ''.json'' \<longleftrightarrow>
   list_all2 (\<lambda>c cs. c \<in> set cs) e [''.'', ''jJ'', ''sS'', ''oO'', ''nN'']"
  by (auto simp: lower_def list_all2_Cons2 lower_char_simps)

subsection \<open>The last occurrence of a character\<close>

lemma rfind_last: "c \<notin> set s \<Longrightarrow> rfind (pre @ c # s) c = int (length pre)"
proof -
  assume a: "c \<notin> set s"
  have "takeWhile (\<lambda>x. x \<noteq> c) (rev (pre @ c # s)) = rev s"
    using a by (auto simp: takeWhile_tail)
  then show ?thesis by (simp add: rfind_def)
qed

lemma rfind_none: "c \<notin> set p \<Longrightarrow> rfind p c = - 1"
  by (simp add: rfind_def)

lemma rfind_cases:
  obtains (absent) "c \<notin> set p" "rfind p c = - 1"
  | (found) pre s where "p = pre @ c # s" "c \<notin> set s" "rfind p c = int (length pre)"
proof (cases "c \<in> set p")
  case True
  then obtain pre s where "p = pre @ c # s" "c \<notin> set s"
    by (meson split_list_last)
  then show ?thesis using found rfind_last by blast
next
  case False
  then show ?thesis using absent rfind_none by blast
qed

lemma rfind_ge: "- 1 \<le> rfind p c"
  by (cases rule: rfind_cases [of c p]) simp_all

subsection \<open>The loop over leading dots\<close>

lemma take1_drop: "n < length p \<Longrightarrow> take (Suc 0) (drop n p) = [p ! n]"
  by (metis Cons_nth_drop_Suc take0 take_Suc_Cons)

lemma skip_leading_dots_eq:
  "0 \<le> i \<Longrightarrow> nat d \<le> length p \<Longrightarrow>
   skip_leading_dots p i d =
     (if \<exists>k. i \<le> k \<and> k < d \<and> p ! nat k \<noteq> CHR ''.''
      then Some (take (nat d) p, drop (nat d) p) else None)"
proof (induction p i d rule: skip_leading_dots.induct)
  case (1 p i d)
  show ?case
  proof (cases "i < d")
    case True
    then have len: "nat i < length p" using "1.prems" by linarith
    show ?thesis
    proof (cases "p ! nat i = CHR ''.''")
      case True
      have "skip_leading_dots p i d = skip_leading_dots p (i + 1) d"
        using \<open>i < d\<close> True len by (subst skip_leading_dots.simps) (simp add: take1_drop)
      also have "\<dots> = (if \<exists>k. i + 1 \<le> k \<and> k < d \<and> p ! nat k \<noteq> CHR ''.''
          then Some (take (nat d) p, drop (nat d) p) else None)"
        using "1.IH" \<open>i < d\<close> True len "1.prems" by (simp add: take1_drop)
      also have "(\<exists>k. i + 1 \<le> k \<and> k < d \<and> p ! nat k \<noteq> CHR ''.'') \<longleftrightarrow>
          (\<exists>k. i \<le> k \<and> k < d \<and> p ! nat k \<noteq> CHR ''.'')"
      proof
        assume "\<exists>k. i + 1 \<le> k \<and> k < d \<and> p ! nat k \<noteq> CHR ''.''"
        then show "\<exists>k. i \<le> k \<and> k < d \<and> p ! nat k \<noteq> CHR ''.''"
          by (meson add_le_imp_le_right dual_order.trans le_add_same_cancel1 zero_le_one add_increasing2 order_refl zle_add1_eq_le less_le_not_le linorder_le_cases)
      next
        assume "\<exists>k. i \<le> k \<and> k < d \<and> p ! nat k \<noteq> CHR ''.''"
        then obtain k where k: "i \<le> k" "k < d" "p ! nat k \<noteq> CHR ''.''" by blast
        with True have "k \<noteq> i" by auto
        with k have "i + 1 \<le> k" by simp
        with k show "\<exists>k. i + 1 \<le> k \<and> k < d \<and> p ! nat k \<noteq> CHR ''.''" by blast
      qed
      finally show ?thesis .
    next
      case False
      have "skip_leading_dots p i d = Some (take (nat d) p, drop (nat d) p)"
        using \<open>i < d\<close> False len by (subst skip_leading_dots.simps) (simp add: take1_drop)
      moreover have "\<exists>k. i \<le> k \<and> k < d \<and> p ! nat k \<noteq> CHR ''.''"
        using \<open>i < d\<close> False by (intro exI [of _ i]) simp
      ultimately show ?thesis by simp
    qed
  next
    case False
    have "skip_leading_dots p i d = None"
      using False by (subst skip_leading_dots.simps) simp
    moreover have "\<not> (\<exists>k. i \<le> k \<and> k < d \<and> p ! nat k \<noteq> CHR ''.'')"
      using False by auto
    ultimately show ?thesis by simp
  qed
qed

subsection \<open>\<open>splitext\<close> on a path of known shape\<close>

lemma rfind_lt: "c \<notin> set r \<Longrightarrow> rfind (d @ r) c < int (length d)"
proof (cases "c \<in> set d")
  case True
  assume r: "c \<notin> set r"
  from True obtain pre s where d: "d = pre @ c # s" "c \<notin> set s"
    by (meson split_list_last)
  then have "rfind (pre @ c # (s @ r)) c = int (length pre)"
    using r by (intro rfind_last) simp
  then show ?thesis using d by simp
next
  case False
  assume "c \<notin> set r"
  with False have "rfind (d @ r) c = - 1" by (intro rfind_none) simp
  then show ?thesis by simp
qed

lemma rfind_sep:
  assumes "d = [] \<or> last d = c" and "c \<notin> set r"
  shows "rfind (d @ r) c = int (length d) - 1"
proof (cases "d = []")
  case True
  then show ?thesis using assms(2) by (simp add: rfind_none)
next
  case False
  with assms(1) have d: "d = butlast d @ [c]" by (metis append_butlast_last_id)
  have "rfind (butlast d @ c # r) c = int (length (butlast d))"
    using assms(2) by (rule rfind_last)
  moreover have "butlast d @ c # r = d @ r" using d by (metis append.assoc append_Cons append_Nil)
  ultimately show ?thesis using False by (simp add: of_nat_diff Suc_leI)
qed

lemma splitext_split:
  assumes "d = [] \<or> last d = CHR ''/''" and "CHR ''/'' \<notin> set b"
    and "\<exists>c\<in>set b. c \<noteq> CHR ''.''" and "CHR ''.'' \<notin> set e" and "CHR ''/'' \<notin> set e"
  shows "splitext (d @ b @ CHR ''.'' # e) = (d @ b, CHR ''.'' # e)"
proof -
  define p where "p = d @ b @ CHR ''.'' # e"
  define i where "i = int (length d)"
  define di where "di = int (length d + length b)"
  have sep: "rfind p (CHR ''/'') = i - 1"
    unfolding p_def i_def using assms by (intro rfind_sep) auto
  have "rfind ((d @ b) @ CHR ''.'' # e) (CHR ''.'') = int (length (d @ b))"
    using assms(4) by (rule rfind_last)
  then have dot: "rfind p (CHR ''.'') = di"
    by (simp add: p_def di_def)
  obtain j where j: "j < length b" "b ! j \<noteq> CHR ''.''"
    using assms(3) by (metis in_set_conv_nth)
  define k where "k = int (length d + j)"
  have nk: "nat k = length d + j" by (simp add: k_def)
  have "p ! (length d + j) = b ! j"
    using j by (simp add: p_def nth_append)
  with j have "p ! nat k \<noteq> CHR ''.''" by (simp add: nk)
  moreover have "i \<le> k" "k < di" using j(1) by (simp_all add: i_def di_def k_def)
  ultimately have ex: "\<exists>k. i \<le> k \<and> k < di \<and> p ! nat k \<noteq> CHR ''.''" by blast
  have nd: "nat di = length d + length b" by (simp add: di_def)
  have "skip_leading_dots p i di =
      (if \<exists>k. i \<le> k \<and> k < di \<and> p ! nat k \<noteq> CHR ''.''
       then Some (take (nat di) p, drop (nat di) p) else None)"
    by (rule skip_leading_dots_eq) (simp_all add: i_def nd p_def)
  with ex have "skip_leading_dots p i di = Some (take (nat di) p, drop (nat di) p)"
    by simp
  moreover have "take (nat di) p = d @ b" "drop (nat di) p = CHR ''.'' # e"
    by (simp_all add: nd p_def)
  moreover have "di > i - 1" by (simp add: i_def di_def)
  ultimately have "splitext p = (d @ b, CHR ''.'' # e)"
    by (simp add: splitext_def Let_def sep dot)
  then show ?thesis by (simp add: p_def)
qed

lemma splitext_no_ext:
  assumes "d = [] \<or> last d = CHR ''/''" and "\<forall>c\<in>set dots. c = CHR ''.''"
    and "CHR ''.'' \<notin> set n" and "CHR ''/'' \<notin> set n"
  shows "splitext (d @ dots @ n) = (d @ dots @ n, [])"
proof -
  define p where "p = d @ dots @ n"
  define i where "i = int (length d)"
  have "CHR ''/'' \<notin> set (dots @ n)" using assms(2,4) by auto
  then have sep: "rfind p (CHR ''/'') = i - 1"
    unfolding p_def i_def using assms(1) by (intro rfind_sep) auto
  have "splitext p = (p, [])"
  proof (cases "dots = []")
    case True
    have "rfind p (CHR ''.'') \<le> i - 1"
    proof (cases "d = []")
      case True
      with \<open>dots = []\<close> assms(3) have "rfind p (CHR ''.'') = - 1"
        by (simp add: p_def rfind_none)
      then show ?thesis by (simp add: i_def)
    next
      case False
      with assms(1) have d: "d = butlast d @ [CHR ''/'']" by (metis append_butlast_last_id)
      have "rfind (butlast d @ (CHR ''/'' # n)) (CHR ''.'') < int (length (butlast d))"
        using assms(3) by (intro rfind_lt) simp
      moreover have "butlast d @ (CHR ''/'' # n) = p"
        using d \<open>dots = []\<close> by (metis p_def append.assoc append_Cons append_Nil)
      ultimately show ?thesis using False by (simp add: i_def of_nat_diff Suc_leI)
    qed
    then show ?thesis by (simp add: splitext_def Let_def sep)
  next
    case False
    with assms(2) have dots: "dots = butlast dots @ [CHR ''.'']"
      by (metis append_butlast_last_id last_in_set)
    define di where "di = int (length d + length (butlast dots))"
    have "rfind ((d @ butlast dots) @ CHR ''.'' # n) (CHR ''.'') = int (length (d @ butlast dots))"
      using assms(3) by (rule rfind_last)
    moreover have "(d @ butlast dots) @ CHR ''.'' # n = p"
      using dots by (metis p_def append.assoc append_Cons append_Nil)
    ultimately have dot: "rfind p (CHR ''.'') = di" by (simp add: di_def)
    have nd: "nat di = length d + length (butlast dots)" by (simp add: di_def)
    have no: "\<not> (\<exists>k. i \<le> k \<and> k < di \<and> p ! nat k \<noteq> CHR ''.'')"
    proof
      assume "\<exists>k. i \<le> k \<and> k < di \<and> p ! nat k \<noteq> CHR ''.''"
      then obtain k where k: "i \<le> k" "k < di" "p ! nat k \<noteq> CHR ''.''" by blast
      then have lo: "length d \<le> nat k" and hi: "nat k - length d < length dots"
        using False by (auto simp: i_def di_def)
      then have "p ! nat k = dots ! (nat k - length d)"
        by (simp add: p_def nth_append)
      moreover have "dots ! (nat k - length d) \<in> set dots" using hi by simp
      ultimately show False using assms(2) k(3) by auto
    qed
    have "skip_leading_dots p i di =
        (if \<exists>k. i \<le> k \<and> k < di \<and> p ! nat k \<noteq> CHR ''.''
         then Some (take (nat di) p, drop (nat di) p) else None)"
      by (rule skip_leading_dots_eq) (simp_all add: i_def nd p_def)
    with no have "skip_leading_dots p i di = None" by simp
    then show ?thesis by (simp add: splitext_def Let_def sep dot)
  qed
  then show ?thesis by (simp add: p_def)
qed

text \<open>
  Every path has one of two shapes. Either it is a directory part \<open>d\<close> (empty, or ending
  in a slash), a stem \<open>b\<close> without slash that has a character other than a dot, a dot,
  and letters \<open>e\<close> without dot or slash: then \<open>.e\<close> is its extension. Or it is a
  directory part, some dots, and a name \<open>n\<close> without dot or slash: then it has no
  extension.
\<close>

lemma path_shape:
  "(\<exists>d b e. p = d @ b @ CHR ''.'' # e \<and> (d = [] \<or> last d = CHR ''/'') \<and> CHR ''/'' \<notin> set b \<and>
      (\<exists>c\<in>set b. c \<noteq> CHR ''.'') \<and> CHR ''.'' \<notin> set e \<and> CHR ''/'' \<notin> set e) \<or>
   (\<exists>d dots n. p = d @ dots @ n \<and> (d = [] \<or> last d = CHR ''/'') \<and>
      (\<forall>c\<in>set dots. c = CHR ''.'') \<and> CHR ''.'' \<notin> set n \<and> CHR ''/'' \<notin> set n)"
proof -
  obtain d base where p: "p = d @ base" "d = [] \<or> last d = CHR ''/''" "CHR ''/'' \<notin> set base"
  proof (cases "CHR ''/'' \<in> set p")
    case True
    then obtain pre s where s: "p = pre @ CHR ''/'' # s" "CHR ''/'' \<notin> set s"
      by (meson split_list_last)
    then have "p = (pre @ [CHR ''/'']) @ s" "last (pre @ [CHR ''/'']) = CHR ''/''"
      by simp_all
    with s(2) show ?thesis using that [of "pre @ [CHR ''/'']" s] by simp
  next
    case False
    then show ?thesis using that [of "[]" p] by simp
  qed
  define dots where "dots = takeWhile (\<lambda>c. c = CHR ''.'') base"
  define rest where "rest = dropWhile (\<lambda>c. c = CHR ''.'') base"
  have base: "base = dots @ rest" by (simp add: dots_def rest_def)
  have dots: "\<forall>c\<in>set dots. c = CHR ''.''"
    unfolding dots_def by (auto dest: set_takeWhileD)
  have rest: "rest = [] \<or> hd rest \<noteq> CHR ''.''"
    using hd_dropWhile [of "\<lambda>c. c = CHR ''.''" base] by (auto simp: rest_def)
  have nosl: "CHR ''/'' \<notin> set dots" "CHR ''/'' \<notin> set rest"
    using p(3) base by auto
  show ?thesis
  proof (cases "CHR ''.'' \<in> set rest")
    case True
    then obtain pre e where r: "rest = pre @ CHR ''.'' # e" "CHR ''.'' \<notin> set e"
      by (meson split_list_last)
    with rest have "pre \<noteq> []" by (cases pre) auto
    with rest r have "hd pre \<in> set pre" "hd pre \<noteq> CHR ''.''" by auto
    then have nd: "\<exists>c\<in>set (dots @ pre). c \<noteq> CHR ''.''" by auto
    have "p = d @ (dots @ pre) @ CHR ''.'' # e" using p(1) base r by simp
    moreover have "CHR ''/'' \<notin> set (dots @ pre)" "CHR ''/'' \<notin> set e" using nosl r by auto
    ultimately have "p = d @ (dots @ pre) @ CHR ''.'' # e \<and> (d = [] \<or> last d = CHR ''/'') \<and>
        CHR ''/'' \<notin> set (dots @ pre) \<and> (\<exists>c\<in>set (dots @ pre). c \<noteq> CHR ''.'') \<and>
        CHR ''.'' \<notin> set e \<and> CHR ''/'' \<notin> set e"
      using p(2) nd r(2) by (intro conjI)
    then show ?thesis by (intro disjI1 exI)
  next
    case False
    have "p = d @ dots @ rest" using p(1) base by simp
    then have "p = d @ dots @ rest \<and> (d = [] \<or> last d = CHR ''/'') \<and>
        (\<forall>c\<in>set dots. c = CHR ''.'') \<and> CHR ''.'' \<notin> set rest \<and> CHR ''/'' \<notin> set rest"
      using p(2) dots False nosl(2) by (intro conjI)
    then show ?thesis by (intro disjI2 exI)
  qed
qed

text \<open>
  C7: type detection is a function of the path alone, and of its extension only, whatever
  the case of its letters. A path \<open>d @ b @ ''.'' @ e\<close>, where \<open>d\<close> is empty or ends in a
  slash, the stem \<open>b\<close> has no slash and has a character other than a dot, and \<open>e\<close> has
  no dot and no slash, is \<open>yaml\<close> when \<open>e\<close> is \<open>yaml\<close> or \<open>yml\<close> in any mix of upper
  and lower case, \<open>json\<close> when \<open>e\<close> is \<open>json\<close> in any mix of case, and \<open>text\<close> otherwise.
  A path with no extension, that is a directory part, then dots only, then a name with
  no dot and no slash, is \<open>text\<close>: so are \<open>README\<close>, \<open>conf/.yaml\<close> and \<open>a.d/yaml\<close>.
  By \<open>path_shape\<close> these two shapes cover every path. No file content is an argument
  of \<open>detect_file_type\<close>.
\<close>

theorem detect_file_type_by_extension:
  "((d = [] \<or> last d = CHR ''/'') \<and> CHR ''/'' \<notin> set b \<and> (\<exists>c\<in>set b. c \<noteq> CHR ''.'') \<and>
      CHR ''.'' \<notin> set e \<and> CHR ''/'' \<notin> set e \<longrightarrow>
    detect_file_type (d @ b @ CHR ''.'' # e) =
      (if list_all2 (\<lambda>c cs. c \<in> set cs) e [''yY'', ''aA'', ''mM'', ''lL''] \<or>
          list_all2 (\<lambda>c cs. c \<in> set cs) e [''yY'', ''mM'', ''lL''] then ''yaml''
       else if list_all2 (\<lambda>c cs. c \<in> set cs) e [''jJ'', ''sS'', ''oO'', ''nN''] then ''json''
       else ''text'')) \<and>
   ((d' = [] \<or> last d' = CHR ''/'') \<and> (\<forall>c\<in>set dots. c = CHR ''.'') \<and>
      CHR ''.'' \<notin> set n \<and> CHR ''/'' \<notin> set n \<longrightarrow>
    detect_file_type (d' @ dots @ n) = ''text'')"
proof (intro conjI impI)
  assume a: "(d = [] \<or> last d = CHR ''/'') \<and> CHR ''/'' \<notin> set b \<and> (\<exists>c\<in>set b. c \<noteq> CHR ''.'') \<and>
      CHR ''.'' \<notin> set e \<and> CHR ''/'' \<notin> set e"
  then have "splitext (d @ b @ CHR ''.'' # e) = (d @ b, CHR ''.'' # e)"
    by (intro splitext_split) simp_all
  then show "detect_file_type (d @ b @ CHR ''.'' # e) =
      (if list_all2 (\<lambda>c cs. c \<in> set cs) e [''yY'', ''aA'', ''mM'', ''lL''] \<or>
          list_all2 (\<lambda>c cs. c \<in> set cs) e [''yY'', ''mM'', ''lL''] then ''yaml''
       else if list_all2 (\<lambda>c cs. c \<in> set cs) e [''jJ'', ''sS'', ''oO'', ''nN''] then ''json''
       else ''text'')"
    using lower_yaml [of "CHR ''.'' # e"] lower_yml [of "CHR ''.'' # e"]
      lower_json [of "CHR ''.'' # e"]
    by (simp add: detect_file_type_def Let_def)
next
  assume a: "(d' = [] \<or> last d' = CHR ''/'') \<and> (\<forall>c\<in>set dots. c = CHR ''.'') \<and>
      CHR ''.'' \<notin> set n \<and> CHR ''/'' \<notin> set n"
  then have "splitext (d' @ dots @ n) = (d' @ dots @ n, [])"
    by (intro splitext_no_ext) simp_all
  then show "detect_file_type (d' @ dots @ n) = ''text''"
    by (simp add: detect_file_type_def Let_def lower_def)
qed

theorem detect_file_type_by_extension_witness:
  "(''conf/'' = [] \<or> last ''conf/'' = CHR ''/'') \<and> CHR ''/'' \<notin> set ''App'' \<and>
   (\<exists>c\<in>set ''App''. c \<noteq> CHR ''.'') \<and> CHR ''.'' \<notin> set ''YAML'' \<and> CHR ''/'' \<notin> set ''YAML'' \<and>
   detect_file_type ''conf/App.YAML'' = ''yaml'' \<and>
   set ''.'' = {CHR ''.''} \<and> CHR ''.'' \<notin> set ''yaml'' \<and> CHR ''/'' \<notin> set ''yaml'' \<and>
   detect_file_type ''conf/.yaml'' = ''text''"
  using detect_file_type_by_extension [where d = "''conf/''" and b = "''App''" and e = "''YAML''"
      and d' = "''conf/''" and dots = "''.''" and n = "''yaml''"]
  by simp

text \<open>
  C10: type detection is total. For every path the result is one of the three strings
  \<open>yaml\<close>, \<open>json\<close> and \<open>text\<close>; no branch of the function returns \<open>None\<close> or raises.
\<close>

theorem detect_file_type_total:
  "detect_file_type p = ''yaml'' \<or> detect_file_type p = ''json'' \<or> detect_file_type p = ''text''"
  by (simp add: detect_file_type_def Let_def)

section \<open>Properties of whitespace normalization\<close>

subsection \<open>Lines and their boundaries\<close>

lemma is_linebreak_LF: "is_linebreak LF"
  by (simp add: is_linebreak_def LF_def)

lemma LF_neq_CR: "LF \<noteq> CR"
  by (simp add: LF_def CR_def)

lemma splitlines_from_no_linebreak:
  "no_linebreak l \<Longrightarrow> splitlines_from cur (l @ rest) = splitlines_from (cur @ l) rest"
proof (induction l arbitrary: cur)
  case Nil
  then show ?case by simp
next
  case (Cons c l)
  then have "\<not> is_linebreak c" "no_linebreak l" by (simp_all add: no_linebreak_def)
  with Cons.IH [of "cur @ [c]"] show ?case by simp
qed

lemma splitlines_from_LF:
  "splitlines_from cur (LF # rest) = cur # splitlines_from [] rest"
  by (cases rest) (simp_all add: is_linebreak_LF LF_neq_CR)

lemma splitlines_from_lines:
  "no_linebreak cur \<Longrightarrow> l \<in> set (splitlines_from cur s) \<Longrightarrow> no_linebreak l"
proof (induction cur s rule: splitlines_from.induct)
  case (1 cur)
  then show ?case by (auto split: if_splits)
next
  case (2 cur c cs)
  show ?case
  proof (cases "is_linebreak c")
    case True
    have e: "no_linebreak []" by (simp add: no_linebreak_def)
    show ?thesis
    proof (cases cs)
      case Nil
      with True "2.prems" show ?thesis by simp
    next
      case (Cons d ds)
      show ?thesis
      proof (cases "c = CR \<and> d = LF")
        case crlf: True
        with True Cons "2.prems" have "l = cur \<or> l \<in> set (splitlines_from [] ds)" by auto
        with "2.IH"(1) [OF True Cons crlf e] "2.prems"(1) show ?thesis by auto
      next
        case nocrlf: False
        with True Cons "2.prems" have "l = cur \<or> l \<in> set (splitlines_from [] (d # ds))" by auto
        with "2.IH"(2) [OF True Cons nocrlf e] "2.prems"(1) show ?thesis by auto
      qed
    qed
  next
    case False
    with "2.prems" have "no_linebreak (cur @ [c])" "l \<in> set (splitlines_from (cur @ [c]) cs)"
      by (simp_all add: no_linebreak_def)
    with "2.IH"(3) [OF False] show ?thesis by simp
  qed
qed

lemma splitlines_lines: "l \<in> set (splitlines s) \<Longrightarrow> no_linebreak l"
  unfolding splitlines_def by (rule splitlines_from_lines [of "[]"]) (simp_all add: no_linebreak_def)

lemma strip_subset: "set (strip l) \<subseteq> set l"
proof -
  have "set (strip l) = set (dropWhile is_space (rev (dropWhile is_space l)))"
    by (simp add: strip_def)
  also have "\<dots> \<subseteq> set (rev (dropWhile is_space l))" by (rule set_dropWhileD [THEN subsetI])
  also have "\<dots> \<subseteq> set l" by (auto dest: set_dropWhileD)
  finally show ?thesis .
qed

lemma strip_no_linebreak: "no_linebreak l \<Longrightarrow> no_linebreak (strip l)"
  using strip_subset [of l] by (auto simp: no_linebreak_def)

lemma dropWhile_idem: "dropWhile P (dropWhile P xs) = dropWhile P xs"
  by (induction xs) auto

lemma dropWhile_hd: "xs \<noteq> [] \<Longrightarrow> \<not> P (hd xs) \<Longrightarrow> dropWhile P xs = xs"
  by (cases xs) auto

lemma strip_idem: "strip (strip l) = strip l"
proof -
  define a where "a = dropWhile is_space l"
  define b where "b = dropWhile is_space (rev a)"
  have s: "strip l = rev b" by (simp add: strip_def a_def b_def)
  have b: "dropWhile is_space b = b" by (simp add: b_def dropWhile_idem)
  have "dropWhile is_space (rev b) = rev b"
  proof (cases "b = []")
    case True
    then show ?thesis by simp
  next
    case False
    then have "rev a \<noteq> []" by (auto simp: b_def)
    then have "a \<noteq> []" by simp
    then have ha: "\<not> is_space (hd a)" unfolding a_def by (rule hd_dropWhile)
    obtain pre where "rev a = pre @ b" unfolding b_def
      by (metis takeWhile_dropWhile_id)
    then have "a = rev b @ rev pre" by (metis rev_append rev_rev_ident)
    with False have "hd (rev b) = hd a" by simp
    with ha False show ?thesis by (intro dropWhile_hd) simp_all
  qed
  then have "rev (dropWhile is_space (rev (dropWhile is_space (rev b)))) = rev b"
    by (simp add: b)
  then show ?thesis by (simp add: s strip_def [of "rev b"])
qed

subsection \<open>Splitting what was joined\<close>

lemma join_snoc: "L \<noteq> [] \<Longrightarrow> join sep (L @ [x]) = join sep L @ sep @ x"
  by (induction L rule: induct_list012) auto

lemma splitlines_join:
  "\<forall>l\<in>set L. no_linebreak l \<Longrightarrow>
   splitlines (join [LF] L) = (if L \<noteq> [] \<and> last L = [] then butlast L else L)"
proof (induction L rule: induct_list012)
  case 1
  then show ?case by (simp add: splitlines_def)
next
  case (2 x)
  then have "no_linebreak x" by simp
  from splitlines_from_no_linebreak [OF this, of "[]" "[]"] show ?case
    by (simp add: splitlines_def)
next
  case (3 x y zs)
  then have x: "no_linebreak x" and r: "\<forall>l\<in>set (y # zs). no_linebreak l" by simp_all
  have "splitlines (join [LF] (x # y # zs)) = splitlines_from [] (x @ LF # join [LF] (y # zs))"
    by (simp add: splitlines_def)
  also have "\<dots> = splitlines_from x (LF # join [LF] (y # zs))"
    using splitlines_from_no_linebreak [OF x, of "[]"] by simp
  also have "\<dots> = x # splitlines (join [LF] (y # zs))"
    by (simp only: splitlines_from_LF splitlines_def)
  also have "\<dots> = x # (if last (y # zs) = [] then butlast (y # zs) else y # zs)"
    using "3.IH"(2) [OF r] by simp
  finally show ?case by simp
qed

lemma join_ends_LF:
  assumes "\<forall>l\<in>set L. no_linebreak l"
  shows "(join [LF] L \<noteq> [] \<and> last (join [LF] L) = LF) \<longleftrightarrow> (2 \<le> length L \<and> last L = [])"
proof (cases L rule: rev_cases)
  case Nil
  then show ?thesis by simp
next
  case (snoc L' x)
  with assms have "no_linebreak x" by simp
  then have x: "x \<noteq> [] \<Longrightarrow> last x \<noteq> LF"
    by (metis is_linebreak_LF last_in_set no_linebreak_def)
  show ?thesis
  proof (cases "L' = []")
    case True
    with snoc x show ?thesis by auto
  next
    case False
    then have "2 \<le> length L" using snoc by (cases L') simp_all
    moreover have "join [LF] L = join [LF] L' @ LF # x"
      using False snoc by (simp add: join_snoc)
    ultimately show ?thesis using snoc x by auto
  qed
qed

lemma stripped_lines:
  "\<forall>l\<in>set (map strip (splitlines s)). no_linebreak l"
  by (simp add: splitlines_lines strip_no_linebreak)

lemma normalize_twice:
  "normalize_whitespace (normalize_whitespace s) =
     join [LF] (if splitlines s \<noteq> [] \<and> strip (last (splitlines s)) = []
                then butlast (map strip (splitlines s)) else map strip (splitlines s))"
proof -
  define L where "L = map strip (splitlines s)"
  have nl: "\<forall>l\<in>set L. no_linebreak l" unfolding L_def by (rule stripped_lines)
  have st: "map strip L = L" by (simp add: L_def strip_idem)
  then have stb: "map strip (butlast L) = butlast L" by (metis map_butlast)
  have "normalize_whitespace (join [LF] L) =
      join [LF] (map strip (if L \<noteq> [] \<and> last L = [] then butlast L else L))"
    by (simp only: normalize_whitespace_def splitlines_join [OF nl])
  also have "\<dots> = join [LF] (if L \<noteq> [] \<and> last L = [] then butlast L else L)"
    using st stb by simp
  finally have eq: "normalize_whitespace (join [LF] L) =
      join [LF] (if L \<noteq> [] \<and> last L = [] then butlast L else L)" .
  show ?thesis
  proof (cases "splitlines s = []")
    case True
    with eq show ?thesis by (simp add: normalize_whitespace_def [of s] L_def)
  next
    case False
    with eq show ?thesis by (simp add: normalize_whitespace_def [of s] L_def last_map)
  qed
qed

lemma normalize_ends_LF:
  "(normalize_whitespace s \<noteq> [] \<and> last (normalize_whitespace s) = LF) \<longleftrightarrow>
   (2 \<le> length (splitlines s) \<and> strip (last (splitlines s)) = [])"
proof -
  have "(2 \<le> length (map strip (splitlines s)) \<and> last (map strip (splitlines s)) = []) \<longleftrightarrow>
      (2 \<le> length (splitlines s) \<and> strip (last (splitlines s)) = [])"
    by (cases "splitlines s = []") (simp_all add: last_map)
  with join_ends_LF [OF stripped_lines, of s] show ?thesis
    by (simp only: normalize_whitespace_def)
qed

lemma normalize_twice_butlast:
  assumes "2 \<le> length (splitlines s)" and "strip (last (splitlines s)) = []"
  shows "normalize_whitespace (normalize_whitespace s) = butlast (normalize_whitespace s)"
proof -
  define L where "L = map strip (splitlines s)"
  have ne0: "splitlines s \<noteq> []" using assms(1) by auto
  have len: "2 \<le> length L" and la: "last L = []" and ne: "L \<noteq> []"
    using assms ne0 by (simp_all add: L_def last_map)
  then have L: "L = butlast L @ [[]]" by (metis append_butlast_last_id)
  have bne: "butlast L \<noteq> []" using len by (cases L rule: rev_cases) auto
  have "join [LF] L = join [LF] (butlast L @ [[]])" using L by simp
  also have "\<dots> = join [LF] (butlast L) @ [LF]" using bne by (simp add: join_snoc)
  finally have "butlast (join [LF] L) = join [LF] (butlast L)" by simp
  moreover have "normalize_whitespace (normalize_whitespace s) = join [LF] (butlast L)"
    using assms ne0 by (simp add: normalize_twice L_def)
  ultimately show ?thesis by (simp add: normalize_whitespace_def L_def)
qed

lemma splitlines_from_append_LF:
  "s \<noteq> [] \<Longrightarrow> \<not> is_linebreak (last s) \<Longrightarrow>
   splitlines_from cur (s @ [LF]) = splitlines_from cur s"
proof (induction cur s rule: splitlines_from.induct)
  case (1 cur)
  then show ?case by simp
next
  case (2 cur c cs)
  show ?case
  proof (cases "is_linebreak c")
    case True
    with "2.prems" obtain d ds where cs: "cs = d # ds" by (cases cs) auto
    show ?thesis
    proof (cases "c = CR \<and> d = LF")
      case crlf: True
      with "2.prems" cs have ds: "ds \<noteq> []" "\<not> is_linebreak (last ds)"
        using is_linebreak_LF by (auto split: if_splits)
      from "2.IH"(1) [OF True cs crlf ds] True cs crlf ds show ?thesis
        by (cases ds) simp_all
    next
      case nocrlf: False
      from "2.prems" cs have "d # ds \<noteq> []" "\<not> is_linebreak (last (d # ds))" by simp_all
      from "2.IH"(2) [OF True cs nocrlf this] True cs nocrlf show ?thesis by auto
    qed
  next
    case False
    show ?thesis
    proof (cases "cs = []")
      case True
      with False show ?thesis by (simp add: is_linebreak_LF)
    next
      case ne: False
      with "2.prems" have "\<not> is_linebreak (last cs)" by simp
      from "2.IH"(3) [OF False ne this] False show ?thesis by simp
    qed
  qed
qed

text \<open>
  C5, as the specification states it, does not hold. The text \<open>a\<close>, line feed, space has
  the lines \<open>a\<close> and one space; stripped and joined they give \<open>a\<close> followed by a line
  feed, which has the single line \<open>a\<close>. So normalizing once gives \<open>a\<close> and a line feed,
  normalizing twice gives \<open>a\<close>.
\<close>

theorem normalize_whitespace_not_idempotent:
  "normalize_whitespace (normalize_whitespace [CHR ''a'', LF, CHR '' '']) \<noteq>
   normalize_whitespace [CHR ''a'', LF, CHR '' '']"
  by code_simp

text \<open>
  C5, amended: normalizing a normalized text removes its final line feed when it has
  one, and changes nothing otherwise. A normalized text ends in a line feed exactly when
  the input has at least two lines and its last line is empty or whitespace only. So
  \<open>normalize_whitespace\<close> is idempotent on exactly the other inputs.
\<close>

theorem normalize_whitespace_twice:
  "normalize_whitespace (normalize_whitespace s) =
     (if 2 \<le> length (splitlines s) \<and> strip (last (splitlines s)) = []
      then butlast (normalize_whitespace s) else normalize_whitespace s) \<and>
   (normalize_whitespace (normalize_whitespace s) = normalize_whitespace s \<longleftrightarrow>
      length (splitlines s) < 2 \<or> strip (last (splitlines s)) \<noteq> [])"
proof (cases "2 \<le> length (splitlines s) \<and> strip (last (splitlines s)) = []")
  case True
  then have "normalize_whitespace s \<noteq> []" using normalize_ends_LF [of s] by simp
  then have "butlast (normalize_whitespace s) \<noteq> normalize_whitespace s"
    by (metis append_butlast_last_id append_self_conv not_Cons_self2)
  with True normalize_twice_butlast [of s] show ?thesis by auto
next
  case False
  have "normalize_whitespace (normalize_whitespace s) = normalize_whitespace s"
  proof (cases "splitlines s \<noteq> [] \<and> strip (last (splitlines s)) = []")
    case True
    from True obtain x xs where xs: "splitlines s = x # xs" by (cases "splitlines s") auto
    with False True have "\<not> 2 \<le> length (x # xs)" by simp
    then have "xs = []" by (cases xs) simp_all
    with xs have x: "splitlines s = [x]" by simp
    with True show ?thesis by (simp add: normalize_twice) (simp add: normalize_whitespace_def)
  next
    case False
    then have "normalize_whitespace (normalize_whitespace s) =
        join [LF] (map strip (splitlines s))"
      by (auto simp: normalize_twice)
    also have "\<dots> = normalize_whitespace s" by (simp add: normalize_whitespace_def)
    finally show ?thesis .
  qed
  with False show ?thesis by auto
qed

theorem normalize_whitespace_twice_witness:
  "strip (last (splitlines '' a '')) \<noteq> [] \<and>
   normalize_whitespace (normalize_whitespace '' a '') = normalize_whitespace '' a ''"
proof -
  have h: "strip (last (splitlines '' a '')) \<noteq> []" by code_simp
  from normalize_whitespace_twice [of "'' a ''"] h show ?thesis by simp
qed

text \<open>
  C9, as stated, does not hold either. The text \<open>a\<close> followed by two line feeds has the
  lines \<open>a\<close> and the empty line, so its normal form is \<open>a\<close> followed by a line feed: the
  output ends in a line feed. The text \<open>a\<close> followed by one line feed normalizes to
  \<open>a\<close>: two inputs that differ by one trailing line feed have different normal forms.
\<close>

theorem normalize_whitespace_keeps_LF:
  "normalize_whitespace [CHR ''a'', LF, LF] = [CHR ''a'', LF] \<and>
   last (normalize_whitespace [CHR ''a'', LF, LF]) = LF \<and>
   normalize_whitespace [CHR ''a'', LF] = [CHR ''a''] \<and>
   normalize_whitespace [CHR ''a'', LF, LF] \<noteq> normalize_whitespace [CHR ''a'', LF]"
  by code_simp

text \<open>
  C9, amended: the output of whitespace normalization ends in a line feed exactly when
  the input has at least two lines and its last line is empty or whitespace only. A text
  that is empty or whose last character is not a line boundary has the same normal
  form with and without one line feed appended, so the trailing newline of such a text
  is not preserved.
\<close>

theorem normalize_whitespace_trailing_LF:
  "((normalize_whitespace s \<noteq> [] \<and> last (normalize_whitespace s) = LF) \<longleftrightarrow>
      (2 \<le> length (splitlines s) \<and> strip (last (splitlines s)) = [])) \<and>
   (s = [] \<or> \<not> is_linebreak (last s) \<longrightarrow>
      normalize_whitespace (s @ [LF]) = normalize_whitespace s)"
proof (intro conjI impI)
  show "(normalize_whitespace s \<noteq> [] \<and> last (normalize_whitespace s) = LF) \<longleftrightarrow>
      (2 \<le> length (splitlines s) \<and> strip (last (splitlines s)) = [])"
    by (rule normalize_ends_LF)
next
  assume a: "s = [] \<or> \<not> is_linebreak (last s)"
  show "normalize_whitespace (s @ [LF]) = normalize_whitespace s"
  proof (cases "s = []")
    case True
    then show ?thesis
      by (simp add: normalize_whitespace_def splitlines_def is_linebreak_LF strip_def)
  next
    case False
    with a show ?thesis
      by (simp add: normalize_whitespace_def splitlines_def splitlines_from_append_LF)
  qed
qed

theorem normalize_whitespace_trailing_LF_witness:
  "\<not> is_linebreak (last ''a = 1'') \<and>
   normalize_whitespace (''a = 1'' @ [LF]) = normalize_whitespace ''a = 1''"
  using normalize_whitespace_trailing_LF [of "''a = 1''"] by (simp add: is_linebreak_def)

section \<open>Properties of the command line program\<close>

subsection \<open>The log and the arguments that a step does not read\<close>


lemma sys_exit_sel [simp]:
  "exit_status (sys_exit l) = 1" "printed (sys_exit l) = None"
  "written (sys_exit l) = None" "log (sys_exit l) = l"
  by (simp_all add: sys_exit_def)

lemma output_step_no_validation:
  "output_step w (a\<lparr>no_validation := b\<rparr>) c1 c2 l = output_step w a c1 c2 l"
  by (simp add: output_step_def split: sum.splits option.splits)



lemma output_step_log:
  "exit_status (output_step w a c1 c2 l) = exit_status (output_step w a c1 c2 [])"
  "printed (output_step w a c1 c2 l) = printed (output_step w a c1 c2 [])"
  "written (output_step w a c1 c2 l) = written (output_step w a c1 c2 [])"
  "log (output_step w a c1 c2 l) = l @ log (output_step w a c1 c2 [])"
  by (simp_all add: output_step_def split: sum.splits option.splits)



subsection \<open>A validator that is not installed\<close>

lemma validate_file_tool_absent:
  assumes "t = ''yaml'' \<and> tool = ''yamllint'' \<or> t = ''json'' \<and> tool = ''jsonlint''"
    and "subprocess_run w [tool, p] = Some (FileNotFoundError m)"
  shows "validate_file w p t =
     (True, [(WARNING, tool @ '' not found. Skipping '' @ (if t = ''yaml'' then ''YAML'' else ''JSON'') @
               '' validation. Please install '' @ tool @ '' to enable validation.'')])"
  using assms by (auto simp: validate_file_def)

lemma main_no_validation:
  assumes "fst (validation_step w a (fst (determine_file_type a)))"
  shows "exit_status (main w a) = exit_status (main w (a\<lparr>no_validation := True\<rparr>))"
    and "printed (main w a) = printed (main w (a\<lparr>no_validation := True\<rparr>))"
    and "written (main w a) = written (main w (a\<lparr>no_validation := True\<rparr>))"
proof -
  have dt: "determine_file_type (a\<lparr>no_validation := True\<rparr>) = determine_file_type a"
    by (simp add: determine_file_type_def split: option.splits)
  have vs: "validation_step w (a\<lparr>no_validation := True\<rparr>) t = (True, [])" for t
    by (simp add: validation_step_def)
  obtain t l0 where d: "determine_file_type a = (t, l0)" by (cases "determine_file_type a")
  with assms obtain l1 where v: "validation_step w a t = (True, l1)"
    by (cases "validation_step w a t") auto
  obtain c1 l2 where r1: "read_file w (file1 a) t = (c1, l2)" by (cases "read_file w (file1 a) t")
  obtain c2 l3 where r2: "read_file w (file2 a) t = (c2, l3)" by (cases "read_file w (file2 a) t")
  show "exit_status (main w a) = exit_status (main w (a\<lparr>no_validation := True\<rparr>))"
    using output_step_log(1) [of w a _ _ "l0 @ l1 @ l2 @ l3"] output_step_log(1) [of w a _ _ "l0 @ l2 @ l3"]
    by (simp add: main_def dt vs d v r1 r2 output_step_no_validation split: option.splits)
  show "printed (main w a) = printed (main w (a\<lparr>no_validation := True\<rparr>))"
    using output_step_log(2) [of w a _ _ "l0 @ l1 @ l2 @ l3"] output_step_log(2) [of w a _ _ "l0 @ l2 @ l3"]
    by (simp add: main_def dt vs d v r1 r2 output_step_no_validation split: option.splits)
  show "written (main w a) = written (main w (a\<lparr>no_validation := True\<rparr>))"
    using output_step_log(3) [of w a _ _ "l0 @ l1 @ l2 @ l3"] output_step_log(3) [of w a _ _ "l0 @ l2 @ l3"]
    by (simp add: main_def dt vs d v r1 r2 output_step_no_validation split: option.splits)
qed

text \<open>
  C8: let the file type be \<open>yaml\<close> or \<open>json\<close> and let its validator, \<open>yamllint\<close> or
  \<open>jsonlint\<close>, not be installed, so that running it raises \<open>FileNotFoundError\<close>. Then
  \<open>validate_file\<close> logs a warning, not an error, and returns \<open>True\<close>. When this is so for
  both files of a run of that type, the validation step passes, and the run has the exit
  status and the output of the same run with \<open>--no-validation\<close>.
\<close>

theorem validator_absent_skips:
  assumes "t = ''yaml'' \<and> tool = ''yamllint'' \<or> t = ''json'' \<and> tool = ''jsonlint''"
  shows "(subprocess_run w [tool, p] = Some (FileNotFoundError m) \<longrightarrow>
        validate_file w p t =
          (True, [(WARNING, tool @ '' not found. Skipping '' @
                     (if t = ''yaml'' then ''YAML'' else ''JSON'') @
                     '' validation. Please install '' @ tool @ '' to enable validation.'')])) \<and>
     (fst (determine_file_type a) = t \<and>
      subprocess_run w [tool, file1 a] = Some (FileNotFoundError m1) \<and>
      subprocess_run w [tool, file2 a] = Some (FileNotFoundError m2) \<longrightarrow>
        fst (validation_step w a t) \<and>
        exit_status (main w a) = exit_status (main w (a\<lparr>no_validation := True\<rparr>)) \<and>
        printed (main w a) = printed (main w (a\<lparr>no_validation := True\<rparr>)) \<and>
        written (main w a) = written (main w (a\<lparr>no_validation := True\<rparr>)))"
proof (rule conjI [OF impI impI])
  assume "subprocess_run w [tool, p] = Some (FileNotFoundError m)"
  with assms show "validate_file w p t =
      (True, [(WARNING, tool @ '' not found. Skipping '' @
                 (if t = ''yaml'' then ''YAML'' else ''JSON'') @
                 '' validation. Please install '' @ tool @ '' to enable validation.'')])"
    by (rule validate_file_tool_absent)
next
  assume a: "fst (determine_file_type a) = t \<and>
      subprocess_run w [tool, file1 a] = Some (FileNotFoundError m1) \<and>
      subprocess_run w [tool, file2 a] = Some (FileNotFoundError m2)"
  then have r: "subprocess_run w [tool, file1 a] = Some (FileNotFoundError m1)"
    "subprocess_run w [tool, file2 a] = Some (FileNotFoundError m2)" by simp_all
  note v1 = validate_file_tool_absent [OF assms r(1)]
  note v2 = validate_file_tool_absent [OF assms r(2)]
  have vs: "fst (validation_step w a t)"
    by (simp add: validation_step_def v1 v2)
  with a have "fst (validation_step w a (fst (determine_file_type a)))" by simp
  from main_no_validation [OF this] vs
  show "fst (validation_step w a t) \<and>
      exit_status (main w a) = exit_status (main w (a\<lparr>no_validation := True\<rparr>)) \<and>
      printed (main w a) = printed (main w (a\<lparr>no_validation := True\<rparr>)) \<and>
      written (main w a) = written (main w (a\<lparr>no_validation := True\<rparr>))"
    by simp
qed

theorem validator_absent_skips_witness:
  "fst (determine_file_type (example_args ''a.json'' ''a.json'' None False)) = ''json'' \<and>
   subprocess_run example_world [''jsonlint'', ''a.json''] = Some (FileNotFoundError ''jsonlint'') \<and>
   validate_file example_world ''a.json'' ''json'' =
     (True, [(WARNING, ''jsonlint not found. Skipping JSON validation. Please install jsonlint to enable validation.'')]) \<and>
   fst (validation_step example_world (example_args ''a.json'' ''a.json'' None False) ''json'') \<and>
   exit_status (main example_world (example_args ''a.json'' ''a.json'' None False)) = 0"
proof -
  have t: "fst (determine_file_type (example_args ''a.json'' ''a.json'' None False)) = ''json''"
    by code_simp
  have r: "subprocess_run example_world [''jsonlint'', ''a.json''] = Some (FileNotFoundError ''jsonlint'')"
    by (simp add: example_world_def)
  have e: "exit_status (main example_world (example_args ''a.json'' ''a.json'' None True)) = 0"
    by code_simp
  have u: "(example_args ''a.json'' ''a.json'' None False)\<lparr>no_validation := True\<rparr> =
      example_args ''a.json'' ''a.json'' None True"
    by (simp add: example_args_def)
  have f: "file1 (example_args ''a.json'' ''a.json'' None False) = ''a.json''"
    "file2 (example_args ''a.json'' ''a.json'' None False) = ''a.json''"
    by (simp_all add: example_args_def)
  from validator_absent_skips [where t = "''json''" and tool = "''jsonlint''"
      and a = "example_args ''a.json'' ''a.json'' None False" and w = example_world
      and p = "''a.json''" and m = "''jsonlint''"
      and ?m1.0 = "''jsonlint''" and ?m2.0 = "''jsonlint''"] t r e u f
  show ?thesis by simp
qed

subsection \<open>A file that does not parse\<close>







subsection \<open>Two files of different detected types\<close>




end
